theory Spec2Isabelle
  imports Main "HOL-Library.Word"
begin

section \<open>ProtoRing: a ring under construction (osmium/area/detail/proto_ring.hpp)\<close>

text \<open>
  A \<^verbatim>\<open>ProtoRing\<close> holds raw pointers to segments that live elsewhere and that it
  mutates through those pointers. The embedding keeps that shape: a pointer is an address
  (a natural number, 0 for \<^verbatim>\<open>nullptr\<close>), the segments live in a store from addresses to
  segment values, and every member function that writes through a segment pointer takes
  the store and returns the updated one together with the ring.

  \<^verbatim>\<open>assert\<close> is modelled as it behaves in a build with assertions enabled: the call
  stops with the text of the expression that failed. The sum \<^verbatim>\<open>m_sum\<close> is an
  \<^verbatim>\<open>int64_t\<close>; it is a 64-bit word here, read as two's complement by \<open>sint\<close>.
  Addition and negation wrap around, the result of the usual targets where C++ leaves
  signed overflow undefined.
\<close>

subsection \<open>The collaborators: locations, node references, segments\<close>

type_synonym segment_ptr = nat
type_synonym ring_ptr = nat
type_synonym way_ptr = nat

abbreviation nullptr :: nat where
  "nullptr \<equiv> 0"

text \<open>
  Modelled from the spec: \<^verbatim>\<open>osmium/osm/location.hpp\<close>, \<^verbatim>\<open>osmium/osm/node_ref.hpp\<close> and
  \<^verbatim>\<open>osmium/area/detail/node_ref_segment.hpp\<close> are included by the source but are not part
  of it. The specification describes an endpoint as an opaque node reference with a 2-D
  location, and a directed segment as a start and a stop endpoint, the source way it came
  from, a back-reference to its owning ring and a boolean direction-finalized flag.
\<close>

record Location =
  loc_x :: int
  loc_y :: int

record NodeRef =
  ref :: int
  location :: Location

record NodeRefSegment =
  start :: NodeRef
  stop :: NodeRef
  way :: way_ptr
  owning_ring :: ring_ptr
  direction_done :: bool

type_synonym segment_store = "segment_ptr \<Rightarrow> NodeRefSegment"

text \<open>
  Modelled from the spec: \<^verbatim>\<open>NodeRefSegment::det\<close> is "the shoelace cross-term for this
  edge", a signed area contribution; the ring adds it to an \<^verbatim>\<open>int64_t\<close>.
\<close>

definition det :: "NodeRefSegment \<Rightarrow> 64 word" where
  "det s =
     word_of_int (loc_x (location (start s)) * loc_y (location (stop s))
                  - loc_y (location (start s)) * loc_x (location (stop s)))"

text \<open>
  Modelled from the spec: \<^verbatim>\<open>NodeRefSegment::reverse\<close> "swaps start/stop and negates its
  contribution".
\<close>

definition segment_reverse :: "NodeRefSegment \<Rightarrow> NodeRefSegment" where
  "segment_reverse s = s\<lparr>start := stop s, stop := start s\<rparr>"

text \<open>
  Modelled from the spec: \<^verbatim>\<open>set_ring\<close>, \<^verbatim>\<open>mark_direction_done\<close> and
  \<^verbatim>\<open>mark_direction_not_done\<close> write the owning-ring slot and the direction-finalized
  flag of a segment.
\<close>

definition set_ring :: "ring_ptr \<Rightarrow> NodeRefSegment \<Rightarrow> NodeRefSegment" where
  "set_ring r s = s\<lparr>owning_ring := r\<rparr>"

definition segment_mark_direction_done :: "NodeRefSegment \<Rightarrow> NodeRefSegment" where
  "segment_mark_direction_done s = s\<lparr>direction_done := True\<rparr>"

definition segment_mark_direction_not_done :: "NodeRefSegment \<Rightarrow> NodeRefSegment" where
  "segment_mark_direction_not_done s = s\<lparr>direction_done := False\<rparr>"

text \<open>
  The order on segments (\<^verbatim>\<open>operator<\<close> of \<^verbatim>\<open>node_ref_segment.hpp\<close>) is not part of the
  source either, and the specification only calls it a total order. It is a parameter
  \<open>lt\<close> of every function that compares segments. What the ring relies on is collected
  here: the order is irreflexive and transitive, and it does not look at the owning-ring
  slot, which \<^verbatim>\<open>add_segment_back\<close> overwrites.
\<close>

type_synonym segment_order = "NodeRefSegment \<Rightarrow> NodeRefSegment \<Rightarrow> bool"

definition strict_segment_order :: "segment_order \<Rightarrow> bool" where
  "strict_segment_order lt \<longleftrightarrow>
     (\<forall>a. \<not> lt a a) \<and>
     (\<forall>a b c. lt a b \<longrightarrow> lt b c \<longrightarrow> lt a c) \<and>
     (\<forall>a b r. lt (set_ring r a) b = lt a b \<and> lt a (set_ring r b) = lt a b)"

subsection \<open>The ring\<close>

record ProtoRing =
  m_segments :: "segment_ptr list"
  m_inner :: "ring_ptr list"
  m_min_segment :: segment_ptr
  m_outer_ring :: ring_ptr
  m_sum :: "64 word"

datatype error = Assertion_failed string

type_synonym ring_state = "ProtoRing \<times> segment_store"

text \<open>
  \<^verbatim>\<open>std::for_each(m_segments.begin(), m_segments.end(), f)\<close> with an \<open>f\<close> that mutates
  the segment it is given: the pointers are visited front to back, and a pointer that
  occurs twice is visited twice.
\<close>

fun for_each :: "(NodeRefSegment \<Rightarrow> NodeRefSegment) \<Rightarrow> segment_ptr list \<Rightarrow> segment_store \<Rightarrow> segment_store" where
  "for_each f [] h = h"
| "for_each f (p # ps) h = for_each f ps (h(p := f (h p)))"

definition add_segment_back :: "segment_order \<Rightarrow> ring_ptr \<Rightarrow> segment_ptr \<Rightarrow> ring_state \<Rightarrow> error + ring_state" where
  "add_segment_back lt this segment s =
     (case s of (r, h) \<Rightarrow>
        if segment = nullptr then Inl (Assertion_failed ''segment'')
        else
          let r1 = (if lt (h segment) (h (m_min_segment r))
                    then r\<lparr>m_min_segment := segment\<rparr> else r);
              r2 = r1\<lparr>m_segments := m_segments r1 @ [segment]\<rparr>;
              h' = h(segment := set_ring this (h segment));
              r3 = r2\<lparr>m_sum := m_sum r2 + det (h' segment)\<rparr>
          in Inr (r3, h'))"

text \<open>
  The constructor: the member initialisers (the vectors empty, \<^verbatim>\<open>m_outer_ring\<close> null,
  \<^verbatim>\<open>m_min_segment(segment)\<close>, \<^verbatim>\<open>m_sum(0)\<close>), then \<^verbatim>\<open>add_segment_back(segment)\<close>.
\<close>

definition ProtoRing_ctor :: "segment_order \<Rightarrow> ring_ptr \<Rightarrow> segment_ptr \<Rightarrow> segment_store \<Rightarrow> error + ring_state" where
  "ProtoRing_ctor lt this segment h =
     add_segment_back lt this segment
       (\<lparr>m_segments = [], m_inner = [], m_min_segment = segment,
         m_outer_ring = nullptr, m_sum = 0\<rparr>, h)"

definition min_segment :: "ProtoRing \<Rightarrow> segment_ptr" where
  "min_segment r = m_min_segment r"

definition outer_ring :: "ProtoRing \<Rightarrow> ring_ptr" where
  "outer_ring r = m_outer_ring r"

definition set_outer_ring :: "ring_ptr \<Rightarrow> ProtoRing \<Rightarrow> error + ProtoRing" where
  "set_outer_ring outer r =
     (if outer = nullptr then Inl (Assertion_failed ''outer_ring'')
      else if m_inner r \<noteq> [] then Inl (Assertion_failed ''m_inner.empty()'')
      else Inr (r\<lparr>m_outer_ring := outer\<rparr>))"

definition inner_rings :: "ProtoRing \<Rightarrow> ring_ptr list" where
  "inner_rings r = m_inner r"

definition add_inner_ring :: "ring_ptr \<Rightarrow> ProtoRing \<Rightarrow> error + ProtoRing" where
  "add_inner_ring ring r =
     (if ring = nullptr then Inl (Assertion_failed ''ring'')
      else if m_outer_ring r \<noteq> nullptr then Inl (Assertion_failed ''!m_outer_ring'')
      else Inr (r\<lparr>m_inner := m_inner r @ [ring]\<rparr>))"

definition is_outer :: "ProtoRing \<Rightarrow> bool" where
  "is_outer r \<longleftrightarrow> m_outer_ring r = nullptr"

definition segments :: "ProtoRing \<Rightarrow> segment_ptr list" where
  "segments r = m_segments r"

text \<open>
  \<^verbatim>\<open>m_segments.front()\<close> and \<^verbatim>\<open>m_segments.back()\<close> have no defined result on an empty
  vector; the accessors return \<open>None\<close> there. A ring made by the constructor is never
  empty.
\<close>

definition get_node_ref_start :: "ProtoRing \<Rightarrow> segment_store \<Rightarrow> NodeRef option" where
  "get_node_ref_start r h =
     (case m_segments r of [] \<Rightarrow> None | p # ps \<Rightarrow> Some (start (h p)))"

definition get_node_ref_stop :: "ProtoRing \<Rightarrow> segment_store \<Rightarrow> NodeRef option" where
  "get_node_ref_stop r h =
     (case m_segments r of [] \<Rightarrow> None | p # ps \<Rightarrow> Some (stop (h (last (p # ps)))))"

definition closed :: "ProtoRing \<Rightarrow> segment_store \<Rightarrow> bool option" where
  "closed r h =
     (case get_node_ref_start r h of
        None \<Rightarrow> None
      | Some a \<Rightarrow>
          (case get_node_ref_stop r h of
             None \<Rightarrow> None
           | Some b \<Rightarrow> Some (location a = location b)))"

definition reverse :: "ring_state \<Rightarrow> ring_state" where
  "reverse s =
     (case s of (r, h) \<Rightarrow>
        (r\<lparr>m_segments := rev (m_segments r), m_sum := - m_sum r\<rparr>,
         for_each segment_reverse (m_segments r) h))"

definition mark_direction_done :: "ring_state \<Rightarrow> ring_state" where
  "mark_direction_done s =
     (case s of (r, h) \<Rightarrow> (r, for_each segment_mark_direction_done (m_segments r) h))"

definition is_cw :: "ProtoRing \<Rightarrow> bool" where
  "is_cw r \<longleftrightarrow> sint (m_sum r) \<le> 0"

definition sum_ring :: "ProtoRing \<Rightarrow> 64 word" where
  "sum_ring r = m_sum r"

definition fix_direction :: "ring_state \<Rightarrow> ring_state" where
  "fix_direction s = (if is_cw (fst s) = is_outer (fst s) then reverse s else s)"

definition reset :: "ring_state \<Rightarrow> ring_state" where
  "reset s =
     (case s of (r, h) \<Rightarrow>
        (r\<lparr>m_inner := [], m_outer_ring := nullptr\<rparr>,
         for_each segment_mark_direction_not_done (m_segments r) h))"

definition get_ways :: "ProtoRing \<Rightarrow> segment_store \<Rightarrow> way_ptr set \<Rightarrow> way_ptr set" where
  "get_ways r h ways = ways \<union> set (map (\<lambda>p. way (h p)) (m_segments r))"

text \<open>
  The loop of \<^verbatim>\<open>join_forward\<close>: \<^verbatim>\<open>add_segment_back\<close> for each pointer in turn, stopping
  at the first failed assertion. A caller's sequence of \<^verbatim>\<open>add_segment_back\<close> calls on one
  ring is the same iteration.
\<close>

fun add_segments_back :: "segment_order \<Rightarrow> ring_ptr \<Rightarrow> segment_ptr list \<Rightarrow> ring_state \<Rightarrow> error + ring_state" where
  "add_segments_back lt this [] s = Inr s"
| "add_segments_back lt this (p # ps) s =
     (case add_segment_back lt this p s of
        Inl e \<Rightarrow> Inl e
      | Inr s' \<Rightarrow> add_segments_back lt this ps s')"

text \<open>
  \<^verbatim>\<open>other\<close> is a second ring object, passed by reference; only its segment vector is
  read, and \<^verbatim>\<open>reserve\<close> changes no contents.
\<close>

definition join_forward :: "segment_order \<Rightarrow> ring_ptr \<Rightarrow> ProtoRing \<Rightarrow> ring_state \<Rightarrow> error + ring_state" where
  "join_forward lt this other s = add_segments_back lt this (m_segments other) s"

fun join_backward_loop :: "segment_order \<Rightarrow> ring_ptr \<Rightarrow> segment_ptr list \<Rightarrow> ring_state \<Rightarrow> error + ring_state" where
  "join_backward_loop lt this [] s = Inr s"
| "join_backward_loop lt this (p # ps) s =
     (case s of (r, h) \<Rightarrow>
        (case add_segment_back lt this p (r, h(p := segment_reverse (h p))) of
           Inl e \<Rightarrow> Inl e
         | Inr s' \<Rightarrow> join_backward_loop lt this ps s'))"

definition join_backward :: "segment_order \<Rightarrow> ring_ptr \<Rightarrow> ProtoRing \<Rightarrow> ring_state \<Rightarrow> error + ring_state" where
  "join_backward lt this other s = join_backward_loop lt this (rev (m_segments other)) s"

text \<open>
  A ring seeded by the constructor and grown by a sequence of \<^verbatim>\<open>add_segment_back\<close>
  calls.
\<close>

definition create_and_append :: "segment_order \<Rightarrow> ring_ptr \<Rightarrow> segment_ptr \<Rightarrow> segment_ptr list \<Rightarrow> segment_store \<Rightarrow> error + ring_state" where
  "create_and_append lt this segment ps h =
     (case ProtoRing_ctor lt this segment h of
        Inl e \<Rightarrow> Inl e
      | Inr s \<Rightarrow> add_segments_back lt this ps s)"

text \<open>The sum of the \<^verbatim>\<open>det()\<close> of the segments a list of pointers refers to.\<close>

definition det_sum :: "segment_store \<Rightarrow> segment_ptr list \<Rightarrow> 64 word" where
  "det_sum h ps = sum_list (map (\<lambda>p. det (h p)) ps)"

text \<open>
  The minimum of the segments a list of pointers refers to, under the order \<open>lt\<close>: a
  member of the list that no member is smaller than.
\<close>

definition is_min_segment :: "segment_order \<Rightarrow> segment_store \<Rightarrow> segment_ptr list \<Rightarrow> segment_ptr \<Rightarrow> bool" where
  "is_min_segment lt h ps m \<longleftrightarrow> m \<in> set ps \<and> (\<forall>p\<in>set ps. \<not> lt (h p) (h m))"

subsection \<open>Example data\<close>

text \<open>
  Five segments at addresses 1 to 5, owned by no ring yet. Segments 1, 2, 3 form the
  triangle \<open>(1,1) \<rightarrow> (1,3) \<rightarrow> (3,1) \<rightarrow> (1,1)\<close>, walked clockwise, whose last endpoint is a
  second node reference at the location of the first; segments 4 and 5 run from \<open>(3,1)\<close>
  to \<open>(1,3)\<close> and back, a closed chain that encloses no area. Every other address holds
  a segment from \<open>(0,0)\<close> to \<open>(0,0)\<close>. The example order compares the start locations,
  first by x and then by y.
\<close>

definition node :: "int \<Rightarrow> int \<Rightarrow> int \<Rightarrow> NodeRef" where
  "node n a b = \<lparr>ref = n, location = \<lparr>loc_x = a, loc_y = b\<rparr>\<rparr>"

definition make_segment :: "NodeRef \<Rightarrow> NodeRef \<Rightarrow> NodeRefSegment" where
  "make_segment a b =
     \<lparr>start = a, stop = b, way = 0, owning_ring = nullptr, direction_done = False\<rparr>"

definition example_store :: segment_store where
  "example_store =
     (\<lambda>p. make_segment (node 0 0 0) (node 0 0 0))
       (1 := make_segment (node 1 1 1) (node 2 1 3),
        2 := make_segment (node 2 1 3) (node 3 3 1),
        3 := make_segment (node 3 3 1) (node 4 1 1),
        4 := make_segment (node 5 3 1) (node 6 1 3),
        5 := make_segment (node 6 1 3) (node 5 3 1))"

definition example_order :: segment_order where
  "example_order a b \<longleftrightarrow>
     loc_x (location (start a)) < loc_x (location (start b)) \<or>
     (loc_x (location (start a)) = loc_x (location (start b)) \<and>
      loc_y (location (start a)) < loc_y (location (start b)))"

text \<open>
  The states the constructor and \<^verbatim>\<open>add_segment_back\<close> produce from the example store:
  the triangle as ring 7, and the chain there and back as ring 8.
\<close>

definition triangle_ring :: ProtoRing where
  "triangle_ring =
     \<lparr>m_segments = [1, 2, 3], m_inner = [], m_min_segment = 1,
      m_outer_ring = nullptr, m_sum = - 4\<rparr>"

definition triangle_store :: segment_store where
  "triangle_store = for_each (set_ring 7) [1, 2, 3] example_store"

definition flat_ring :: ProtoRing where
  "flat_ring =
     \<lparr>m_segments = [4, 5], m_inner = [], m_min_segment = 5,
      m_outer_ring = nullptr, m_sum = 0\<rparr>"

definition flat_store :: segment_store where
  "flat_store = for_each (set_ring 8) [4, 5] example_store"

text \<open>
  A ring that holds segment 1 twice, as ring 8, after \<^verbatim>\<open>reverse()\<close>: the segment has been
  reversed twice and is as it was, while \<^verbatim>\<open>m_sum\<close> has been negated from 4 to -4. The
  ring of segment 3 alone ends at \<open>(1,1)\<close>, where segment 1 starts; \<open>seed_store\<close> is the
  store after that ring has been made as ring 7.
\<close>

definition doubled_ring :: ProtoRing where
  "doubled_ring =
     \<lparr>m_segments = [1, 1], m_inner = [], m_min_segment = 1,
      m_outer_ring = nullptr, m_sum = - 4\<rparr>"

definition doubled_store :: segment_store where
  "doubled_store =
     for_each segment_reverse [1, 1] (for_each (set_ring 8) [1, 1] example_store)"

definition single_ring :: ProtoRing where
  "single_ring =
     \<lparr>m_segments = [3], m_inner = [], m_min_segment = 3,
      m_outer_ring = nullptr, m_sum = 2\<rparr>"

definition seed_store :: segment_store where
  "seed_store = for_each (set_ring 7) [3] doubled_store"

text \<open>
  Segment 3 alone made as ring 8, then segments 1 and 2 made as ring 7, which ends
  where segment 3 starts.
\<close>

definition tail_store :: segment_store where
  "tail_store = for_each (set_ring 8) [3] example_store"

definition head_ring :: ProtoRing where
  "head_ring =
     \<lparr>m_segments = [1, 2], m_inner = [], m_min_segment = 1,
      m_outer_ring = nullptr, m_sum = - 6\<rparr>"

definition head_store :: segment_store where
  "head_store = for_each (set_ring 7) [1, 2] tail_store"

section \<open>Basic facts\<close>

subsection \<open>Segments\<close>

lemma det_set_ring: "det (set_ring t s) = det s"
  by (simp add: det_def set_ring_def)

lemma set_ring_idem: "set_ring t (set_ring t s) = set_ring t s"
  by (simp add: set_ring_def)

lemma det_segment_reverse: "det (segment_reverse s) = - det s"
  by (simp add: det_def segment_reverse_def)

lemma segment_reverse_involution: "segment_reverse (segment_reverse s) = s"
  by (simp add: segment_reverse_def)

lemma det_sum_Nil: "det_sum h [] = 0"
  by (simp add: det_sum_def)

lemma det_sum_Cons: "det_sum h (p # ps) = det (h p) + det_sum h ps"
  by (simp add: det_sum_def)

lemma det_sum_append: "det_sum h (ps @ qs) = det_sum h ps + det_sum h qs"
  by (simp add: det_sum_def)

lemma det_sum_set_ring: "det_sum (h(q := set_ring t (h q))) ps = det_sum h ps"
  by (induction ps) (simp_all add: det_sum_Nil det_sum_Cons det_set_ring)

lemma add_segment_back_Inr:
  assumes "segment \<noteq> nullptr"
  shows "add_segment_back lt this segment (r, h) =
     Inr (r\<lparr>m_min_segment := (if lt (h segment) (h (m_min_segment r)) then segment else m_min_segment r),
            m_segments := m_segments r @ [segment],
            m_sum := m_sum r + det (h segment)\<rparr>,
          h(segment := set_ring this (h segment)))"
  using assms by (simp add: add_segment_back_def Let_def det_set_ring)

lemma add_segments_back_total:
  "nullptr \<notin> set ps \<Longrightarrow>
   \<exists>r'. add_segments_back lt this ps (r, h) =
           Inr (r', \<lambda>p. if p \<in> set ps then set_ring this (h p) else h p) \<and>
         m_segments r' = m_segments r @ ps \<and>
         m_sum r' = m_sum r + det_sum h ps \<and>
         m_inner r' = m_inner r \<and> m_outer_ring r' = m_outer_ring r"
proof (induction ps arbitrary: r h)
  case Nil
  then show ?case by (simp add: det_sum_Nil)
next
  case (Cons p ps)
  then have p: "p \<noteq> nullptr" and ps: "nullptr \<notin> set ps" by auto
  let ?r1 = "r\<lparr>m_min_segment := (if lt (h p) (h (m_min_segment r)) then p else m_min_segment r),
            m_segments := m_segments r @ [p],
            m_sum := m_sum r + det (h p)\<rparr>"
  let ?h1 = "h(p := set_ring this (h p))"
  from Cons.IH [OF ps, of ?r1 ?h1] obtain r' where
    r': "add_segments_back lt this ps (?r1, ?h1) =
           Inr (r', \<lambda>q. if q \<in> set ps then set_ring this (?h1 q) else ?h1 q)"
      "m_segments r' = m_segments ?r1 @ ps" "m_sum r' = m_sum ?r1 + det_sum ?h1 ps"
      "m_inner r' = m_inner ?r1" "m_outer_ring r' = m_outer_ring ?r1"
    by blast
  have h_eq: "(\<lambda>q. if q \<in> set ps then set_ring this (?h1 q) else ?h1 q) =
              (\<lambda>q. if q \<in> set (p # ps) then set_ring this (h q) else h q)"
    by (rule ext) (simp add: set_ring_idem)
  show ?case
    using r' h_eq
    by (simp add: add_segment_back_Inr [OF p] det_sum_Cons det_sum_set_ring add.assoc)
qed

lemma lt_set_ring_store:
  assumes "strict_segment_order lt"
  shows "lt ((h(q := set_ring t (h q))) a) ((h(q := set_ring t (h q))) b) = lt (h a) (h b)"
  using assms by (simp add: strict_segment_order_def)

lemma add_segment_back_min:
  assumes ord: "strict_segment_order lt"
    and p: "p \<noteq> nullptr"
    and inv: "is_min_segment lt h (m_segments r) (m_min_segment r)"
    and step: "add_segment_back lt this p (r, h) = Inr (r', h')"
  shows "is_min_segment lt h' (m_segments r') (m_min_segment r')"
proof -
  let ?m = "m_min_segment r"
  have irrefl: "\<And>a. \<not> lt a a" and trans: "\<And>a b c. lt a b \<Longrightarrow> lt b c \<Longrightarrow> lt a c"
    using ord by (auto simp: strict_segment_order_def)
  have h': "h' = h(p := set_ring this (h p))"
    and segs: "m_segments r' = m_segments r @ [p]"
    and m': "m_min_segment r' = (if lt (h p) (h ?m) then p else ?m)"
    using step by (auto simp: add_segment_back_Inr [OF p])
  have same: "\<And>a b. lt (h' a) (h' b) = lt (h a) (h b)"
    unfolding h' by (rule lt_set_ring_store [OF ord])
  show ?thesis
  proof (cases "lt (h p) (h ?m)")
    case True
    have "\<not> lt (h q) (h p)" if "q \<in> set (m_segments r)" for q
    proof
      assume "lt (h q) (h p)"
      then have "lt (h q) (h ?m)" using True by (rule trans)
      with inv that show False by (simp add: is_min_segment_def)
    qed
    then show ?thesis
      using True irrefl by (auto simp: is_min_segment_def segs m' same)
  next
    case False
    then show ?thesis
      using inv by (auto simp: is_min_segment_def segs m' same)
  qed
qed

lemma add_segments_back_min:
  assumes ord: "strict_segment_order lt"
  shows "nullptr \<notin> set ps \<Longrightarrow> is_min_segment lt h (m_segments r) (m_min_segment r) \<Longrightarrow>
         add_segments_back lt this ps (r, h) = Inr (r', h') \<Longrightarrow>
         is_min_segment lt h' (m_segments r') (m_min_segment r')"
proof (induction ps arbitrary: r h)
  case Nil
  then show ?case by simp
next
  case (Cons p ps)
  then have p: "p \<noteq> nullptr" and ps: "nullptr \<notin> set ps" by auto
  obtain r1 h1 where step: "add_segment_back lt this p (r, h) = Inr (r1, h1)"
    by (simp add: add_segment_back_Inr [OF p])
  have "is_min_segment lt h1 (m_segments r1) (m_min_segment r1)"
    by (rule add_segment_back_min [OF ord p Cons.prems(2) step])
  moreover have "add_segments_back lt this ps (r1, h1) = Inr (r', h')"
    using Cons.prems(3) step by simp
  ultimately show ?case
    by (rule Cons.IH [OF ps])
qed

lemma ProtoRing_ctor_Inr:
  assumes "segment \<noteq> nullptr"
  shows "ProtoRing_ctor lt this segment h =
     Inr (\<lparr>m_segments = [segment], m_inner = [], m_min_segment = segment,
           m_outer_ring = nullptr, m_sum = det (h segment)\<rparr>,
          h(segment := set_ring this (h segment)))"
  using assms by (simp add: ProtoRing_ctor_def add_segment_back_Inr)

lemma for_each_append: "for_each f (ps @ qs) h = for_each f qs (for_each f ps h)"
  by (induction ps arbitrary: h) simp_all

lemma for_each_rev_involution:
  assumes "\<And>s. f (f s) = s"
  shows "for_each f (rev ps) (for_each f ps h) = h"
proof (induction ps arbitrary: h)
  case Nil
  show ?case by simp
next
  case (Cons p ps)
  have "for_each f (rev (p # ps)) (for_each f (p # ps) h) =
        for_each f [p] (for_each f (rev ps) (for_each f ps (h(p := f (h p)))))"
    by (simp add: for_each_append)
  also have "\<dots> = for_each f [p] (h(p := f (h p)))"
    by (simp only: Cons.IH)
  also have "\<dots> = h"
    by (simp add: assms)
  finally show ?case .
qed

lemma for_each_idem:
  assumes "\<And>s. f (f s) = f s"
  shows "for_each f ps h = (\<lambda>p. if p \<in> set ps then f (h p) else h p)"
proof (induction ps arbitrary: h)
  case Nil
  show ?case by simp
next
  case (Cons p ps)
  show ?case
    unfolding for_each.simps Cons.IH
    by (rule ext) (simp add: assms)
qed

lemma reverse_reverse: "reverse (reverse s) = s"
  by (cases s) (simp add: reverse_def for_each_rev_involution segment_reverse_involution)

lemma sint_neg64:
  fixes w :: "64 word"
  assumes "w \<noteq> - (2 ^ 63)"
  shows "sint (- w) = - sint w"
proof -
  have "sint w \<noteq> - (2 ^ 63)"
  proof
    assume "sint w = - (2 ^ 63)"
    then have "word_of_int (sint w) = (word_of_int (- (2 ^ 63)) :: 64 word)" by simp
    then show False using assms by simp
  qed
  moreover have "- (2 ^ 63) \<le> sint w" "sint w < 2 ^ 63"
    using sint_ge [of w] sint_lt [of w] by simp_all
  ultimately have "- (2 ^ 63) \<le> - sint w" "- sint w < 2 ^ 63" by linarith+
  then have "signed_take_bit 63 (- sint w) = - sint w"
    by (simp add: signed_take_bit_int_eq_self)
  then show ?thesis by (simp add: sint_word_minus)
qed

lemmas example_defs =
  example_store_def example_order_def make_segment_def node_def
  create_and_append_def ProtoRing_ctor_def add_segment_back_def set_ring_def det_def
  det_sum_def segments_def sum_ring_def min_segment_def

lemma strict_example_order: "strict_segment_order example_order"
  by (auto simp: strict_segment_order_def example_order_def set_ring_def)

lemmas example_ring_defs =
  triangle_ring_def triangle_store_def flat_ring_def flat_store_def

lemma triangle_built:
  "create_and_append example_order 7 1 [2, 3] example_store = Inr (triangle_ring, triangle_store)"
  by (simp add: example_defs example_ring_defs)

lemma flat_built:
  "create_and_append example_order 8 4 [5] example_store = Inr (flat_ring, flat_store)"
  by (simp add: example_defs example_ring_defs)

lemma segment_mark_direction_not_done_idem:
  "segment_mark_direction_not_done (segment_mark_direction_not_done s) =
   segment_mark_direction_not_done s"
  by (simp add: segment_mark_direction_not_done_def)

lemma det_sum_same_endpoints:
  assumes "\<forall>p\<in>set ps. start (h p) = start (h1 p) \<and> stop (h p) = stop (h1 p)"
  shows "det_sum h ps = det_sum h1 ps"
  using assms by (induction ps) (simp_all add: det_sum_Nil det_sum_Cons det_def)

lemma create_and_append_in_step:
  assumes "segment \<noteq> nullptr" and "nullptr \<notin> set ps"
  shows "\<exists>r h1. create_and_append lt this segment ps h = Inr (r, h1) \<and>
           m_segments r = segment # ps \<and> m_sum r = det_sum h1 (m_segments r)"
proof -
  let ?r0 = "\<lparr>m_segments = [segment], m_inner = [], m_min_segment = segment,
              m_outer_ring = nullptr, m_sum = det (h segment)\<rparr>"
  let ?h0 = "h(segment := set_ring this (h segment))"
  let ?h1 = "\<lambda>p. if p \<in> set ps then set_ring this (?h0 p) else ?h0 p"
  from add_segments_back_total [OF assms(2), of lt this ?r0 ?h0] obtain r where
    r: "add_segments_back lt this ps (?r0, ?h0) = Inr (r, ?h1)"
      "m_segments r = m_segments ?r0 @ ps" "m_sum r = m_sum ?r0 + det_sum ?h0 ps"
    by blast
  have same: "det_sum ?h1 qs = det_sum h qs" for qs
    by (induction qs) (simp_all add: det_sum_Nil det_sum_Cons det_set_ring)
  have "create_and_append lt this segment ps h = Inr (r, ?h1)"
    using r(1) by (simp add: create_and_append_def ProtoRing_ctor_Inr [OF assms(1)])
  moreover have "m_sum r = det_sum ?h1 (m_segments r)"
    using r(2,3) by (simp add: same det_sum_Cons det_sum_set_ring)
  moreover have "m_segments r = segment # ps"
    using r(2) by simp
  ultimately show ?thesis
    by blast
qed

section \<open>Construction and growth\<close>

text \<open>
  C1. A ring made by the constructor and grown by any sequence of \<^verbatim>\<open>add_segment_back\<close>
  calls with non-null pointers (and no \<^verbatim>\<open>reverse\<close> in between) is built without a failed
  assertion, holds the seed followed by the appended pointers, and its \<^verbatim>\<open>m_sum\<close> equals
  the sum of \<^verbatim>\<open>det()\<close> over the segments it holds, read in the store the calls leave
  behind. The sum is taken in 64-bit arithmetic, as the running sum is. A pointer may
  occur more than once; it then counts once per occurrence on both sides.
\<close>

theorem create_and_append_sum:
  assumes "segment \<noteq> nullptr" and "nullptr \<notin> set ps"
  shows "\<exists>r h'. create_and_append lt this segment ps h = Inr (r, h') \<and>
           segments r = segment # ps \<and>
           sum_ring r = det_sum h' (segments r)"
proof -
  let ?r0 = "\<lparr>m_segments = [segment], m_inner = [], m_min_segment = segment,
              m_outer_ring = nullptr, m_sum = det (h segment)\<rparr>"
  let ?h0 = "h(segment := set_ring this (h segment))"
  let ?h' = "\<lambda>p. if p \<in> set ps then set_ring this (?h0 p) else ?h0 p"
  from add_segments_back_total [OF assms(2), of lt this ?r0 ?h0] obtain r' where
    r': "add_segments_back lt this ps (?r0, ?h0) = Inr (r', ?h')"
      "m_segments r' = m_segments ?r0 @ ps" "m_sum r' = m_sum ?r0 + det_sum ?h0 ps"
    by blast
  have same: "det_sum ?h' qs = det_sum h qs" for qs
    by (induction qs) (simp_all add: det_sum_Nil det_sum_Cons det_set_ring)
  have "create_and_append lt this segment ps h = Inr (r', ?h')"
    using r'(1) by (simp add: create_and_append_def ProtoRing_ctor_Inr [OF assms(1)])
  moreover have "segments r' = segment # ps"
    using r'(2) by (simp add: segments_def)
  moreover have "sum_ring r' = det_sum ?h' (segments r')"
    using r'(2,3) by (simp add: sum_ring_def segments_def same det_sum_Cons det_sum_set_ring)
  ultimately show ?thesis by blast
qed

theorem create_and_append_sum_witness:
  "(case create_and_append example_order 7 2 [3, 1] example_store of
      Inl e \<Rightarrow> False
    | Inr (r, h') \<Rightarrow> segments r = [2, 3, 1] \<and> sum_ring r = det_sum h' (segments r) \<and>
        sum_ring r = - 4)"
  using create_and_append_sum [of 2 "[3, 1]" example_order 7 example_store]
  by (simp add: example_defs)

text \<open>
  C2. For an order that is irreflexive and transitive and does not read the owning-ring
  slot, a ring made by the constructor and grown by any sequence of
  \<^verbatim>\<open>add_segment_back\<close> calls has as \<^verbatim>\<open>min_segment()\<close> one of its segments, and none of
  its segments is smaller: for a total order, its minimum. The segments are read in the
  store the calls leave behind.
\<close>

theorem create_and_append_min_segment:
  assumes "strict_segment_order lt" and "segment \<noteq> nullptr" and "nullptr \<notin> set ps"
  shows "\<exists>r h'. create_and_append lt this segment ps h = Inr (r, h') \<and>
           segments r = segment # ps \<and>
           is_min_segment lt h' (segments r) (min_segment r)"
proof -
  let ?r0 = "\<lparr>m_segments = [segment], m_inner = [], m_min_segment = segment,
              m_outer_ring = nullptr, m_sum = det (h segment)\<rparr>"
  let ?h0 = "h(segment := set_ring this (h segment))"
  from add_segments_back_total [OF assms(3), of lt this ?r0 ?h0] obtain r' h' where
    r': "add_segments_back lt this ps (?r0, ?h0) = Inr (r', h')"
      "m_segments r' = m_segments ?r0 @ ps"
    by blast
  have "is_min_segment lt ?h0 (m_segments ?r0) (m_min_segment ?r0)"
    using assms(1) by (simp add: is_min_segment_def strict_segment_order_def)
  then have "is_min_segment lt h' (m_segments r') (m_min_segment r')"
    using r'(1) by (rule add_segments_back_min [OF assms(1) assms(3)])
  moreover have "create_and_append lt this segment ps h = Inr (r', h')"
    using r'(1) by (simp add: create_and_append_def ProtoRing_ctor_Inr [OF assms(2)])
  moreover have "segments r' = segment # ps"
    using r'(2) by (simp add: segments_def)
  ultimately show ?thesis by (auto simp: segments_def min_segment_def)
qed

theorem create_and_append_min_segment_witness:
  "strict_segment_order example_order \<and>
   (case create_and_append example_order 7 2 [3, 1] example_store of
      Inl e \<Rightarrow> False
    | Inr (r, h') \<Rightarrow> segments r = [2, 3, 1] \<and> min_segment r = 1 \<and>
        is_min_segment example_order h' (segments r) (min_segment r))"
  using create_and_append_min_segment [OF strict_example_order, of 2 "[3, 1]" 7 example_store] strict_example_order
  by (simp add: example_defs is_min_segment_def)

section \<open>Joining\<close>

text \<open>
  C7, as stated, fails on the sum: \<^verbatim>\<open>join_forward\<close> adds the \<^verbatim>\<open>det()\<close> of each segment
  it absorbs, not the other ring's \<^verbatim>\<open>m_sum\<close>, and the two differ for a ring whose
  \<^verbatim>\<open>m_sum\<close> is out of step with its segments. The ring made by the constructor on
  segment 1, one \<^verbatim>\<open>add_segment_back\<close> of segment 1 again and \<^verbatim>\<open>reverse()\<close> has
  \<^verbatim>\<open>m_sum = -4\<close>, while each of its two entries contributes 2. The ring of segment 3
  has \<^verbatim>\<open>m_sum = 2\<close> and ends at the location where the other ring starts. After the
  join the sum is 6, not \<open>2 + (-4)\<close>.
\<close>

theorem join_forward_doubled_ring:
  "create_and_append example_order 8 1 [1] example_store =
     Inr (doubled_ring\<lparr>m_sum := 4\<rparr>, for_each (set_ring 8) [1, 1] example_store) \<and>
   reverse (doubled_ring\<lparr>m_sum := 4\<rparr>, for_each (set_ring 8) [1, 1] example_store) =
     (doubled_ring, doubled_store) \<and>
   ProtoRing_ctor example_order 7 3 doubled_store = Inr (single_ring, seed_store) \<and>
   get_node_ref_stop single_ring seed_store = Some (node 4 1 1) \<and>
   get_node_ref_start doubled_ring seed_store = Some (node 1 1 1) \<and>
   location (node 4 1 1) = location (node 1 1 1) \<and>
   sum_ring single_ring = 2 \<and> sum_ring doubled_ring = - 4 \<and>
   join_forward example_order 7 doubled_ring (single_ring, seed_store) =
     Inr (\<lparr>m_segments = [3, 1, 1], m_inner = [], m_min_segment = 1,
           m_outer_ring = nullptr, m_sum = 6\<rparr>,
          for_each (set_ring 7) [1, 1] seed_store) \<and>
   sum_ring single_ring + sum_ring doubled_ring \<noteq> 6"
proof -
  have built: "create_and_append example_order 8 1 [1] example_store =
     Inr (doubled_ring\<lparr>m_sum := 4\<rparr>, for_each (set_ring 8) [1, 1] example_store)"
    by (simp add: example_defs doubled_ring_def)
  have reversed: "reverse (doubled_ring\<lparr>m_sum := 4\<rparr>, for_each (set_ring 8) [1, 1] example_store) =
     (doubled_ring, doubled_store)"
    by (simp add: reverse_def doubled_ring_def doubled_store_def)
  have seeded: "ProtoRing_ctor example_order 7 3 doubled_store = Inr (single_ring, seed_store)"
    by (simp add: example_defs segment_reverse_def single_ring_def seed_store_def
        doubled_store_def)
  have ends: "get_node_ref_stop single_ring seed_store = Some (node 4 1 1)"
    "get_node_ref_start doubled_ring seed_store = Some (node 1 1 1)"
    "location (node 4 1 1) = location (node 1 1 1)"
    by (simp_all add: get_node_ref_start_def get_node_ref_stop_def segment_reverse_def
        example_defs single_ring_def seed_store_def doubled_ring_def doubled_store_def)
  have sums: "sum_ring single_ring = 2" "sum_ring doubled_ring = - 4"
    by (simp_all add: sum_ring_def single_ring_def doubled_ring_def)
  have joined: "join_forward example_order 7 doubled_ring (single_ring, seed_store) =
     Inr (\<lparr>m_segments = [3, 1, 1], m_inner = [], m_min_segment = 1,
           m_outer_ring = nullptr, m_sum = 6\<rparr>,
          for_each (set_ring 7) [1, 1] seed_store)"
    by (simp add: join_forward_def segment_reverse_def example_defs
        single_ring_def seed_store_def doubled_ring_def doubled_store_def)
  have "sum_ring single_ring + sum_ring doubled_ring \<noteq> 6"
    by (simp add: sums)
  with built reversed seeded ends sums joined show ?thesis
    by blast
qed

text \<open>
  C7, amended. For a second ring whose segment pointers are non-null,
  \<^verbatim>\<open>join_forward\<close> runs without a failed assertion and leaves in the first ring its own
  segments followed by those of the second, so that the count is the sum of the two
  counts, and its \<^verbatim>\<open>m_sum\<close> is the old value plus the \<^verbatim>\<open>det()\<close> of each absorbed
  segment. When the second ring was made by the constructor and any sequence of
  \<^verbatim>\<open>add_segment_back\<close> calls, and the start and stop of its segments are at the join
  what they were then, the new \<^verbatim>\<open>m_sum\<close> is the sum of the two rings' \<^verbatim>\<open>m_sum\<close> values.
  The first ring is arbitrary, and the join does not look at the endpoints, so the
  equality of the first ring's last and the second ring's first endpoint is not needed.
\<close>

theorem join_forward_count_and_sum:
  "(nullptr \<notin> set (segments other) \<longrightarrow>
      (\<exists>r' h'. join_forward lt this other (r, h) = Inr (r', h') \<and>
         segments r' = segments r @ segments other \<and>
         length (segments r') = length (segments r) + length (segments other) \<and>
         sum_ring r' = sum_ring r + det_sum h (segments other))) \<and>
   (segment \<noteq> nullptr \<and> nullptr \<notin> set ps \<longrightarrow>
      (\<exists>built h1. create_and_append lt this2 segment ps h0 = Inr (built, h1) \<and>
         (\<forall>r1 h2. (\<forall>p\<in>set (segments built). start (h2 p) = start (h1 p) \<and> stop (h2 p) = stop (h1 p)) \<longrightarrow>
            (\<exists>r' h'. join_forward lt this built (r1, h2) = Inr (r', h') \<and>
               segments r' = segments r1 @ segments built \<and>
               length (segments r') = length (segments r1) + length (segments built) \<and>
               sum_ring r' = sum_ring r1 + sum_ring built))))"
proof -
  have general: "\<exists>r' h'. join_forward lt this x (r0, h) = Inr (r', h') \<and>
         segments r' = segments r0 @ segments x \<and>
         length (segments r') = length (segments r0) + length (segments x) \<and>
         sum_ring r' = sum_ring r0 + det_sum h (segments x)"
    if "nullptr \<notin> set (segments x)" for x r0 h
  proof -
    from that have "nullptr \<notin> set (m_segments x)"
      by (simp add: segments_def)
    from add_segments_back_total [OF this, of lt this r0 h] obtain r' h' where
      "add_segments_back lt this (m_segments x) (r0, h) = Inr (r', h')"
      "m_segments r' = m_segments r0 @ m_segments x"
      "m_sum r' = m_sum r0 + det_sum h (m_segments x)"
      by blast
    then show ?thesis
      by (simp add: join_forward_def segments_def sum_ring_def)
  qed
  have first: "nullptr \<notin> set (segments other) \<longrightarrow>
      (\<exists>r' h'. join_forward lt this other (r, h) = Inr (r', h') \<and>
         segments r' = segments r @ segments other \<and>
         length (segments r') = length (segments r) + length (segments other) \<and>
         sum_ring r' = sum_ring r + det_sum h (segments other))"
    by (rule impI) (rule general)
  have second: "segment \<noteq> nullptr \<and> nullptr \<notin> set ps \<longrightarrow>
      (\<exists>built h1. create_and_append lt this2 segment ps h0 = Inr (built, h1) \<and>
         (\<forall>r1 h2. (\<forall>p\<in>set (segments built). start (h2 p) = start (h1 p) \<and> stop (h2 p) = stop (h1 p)) \<longrightarrow>
            (\<exists>r' h'. join_forward lt this built (r1, h2) = Inr (r', h') \<and>
               segments r' = segments r1 @ segments built \<and>
               length (segments r') = length (segments r1) + length (segments built) \<and>
               sum_ring r' = sum_ring r1 + sum_ring built)))"
  proof (rule impI)
    assume pre: "segment \<noteq> nullptr \<and> nullptr \<notin> set ps"
    then have "segment \<noteq> nullptr" and "nullptr \<notin> set ps"
      by simp_all
    from create_and_append_in_step [OF this, of lt this2 h0] obtain built h1 where
      b: "create_and_append lt this2 segment ps h0 = Inr (built, h1)"
        "m_segments built = segment # ps" "m_sum built = det_sum h1 (m_segments built)"
      by blast
    have nonnull: "nullptr \<notin> set (segments built)"
      using pre b(2) by (simp add: segments_def)
    have joinable: "\<forall>r1 h2. (\<forall>p\<in>set (segments built). start (h2 p) = start (h1 p) \<and> stop (h2 p) = stop (h1 p)) \<longrightarrow>
            (\<exists>r' h'. join_forward lt this built (r1, h2) = Inr (r', h') \<and>
               segments r' = segments r1 @ segments built \<and>
               length (segments r') = length (segments r1) + length (segments built) \<and>
               sum_ring r' = sum_ring r1 + sum_ring built)"
    proof (intro allI impI)
      fix r1 :: ProtoRing and h2 :: segment_store
      assume same: "\<forall>p\<in>set (segments built). start (h2 p) = start (h1 p) \<and> stop (h2 p) = stop (h1 p)"
      then have "det_sum h2 (m_segments built) = det_sum h1 (m_segments built)"
        by (intro det_sum_same_endpoints) (simp add: segments_def)
      then have "det_sum h2 (segments built) = sum_ring built"
        using b(3) by (simp add: segments_def sum_ring_def)
      with general [OF nonnull, of r1 h2]
      show "\<exists>r' h'. join_forward lt this built (r1, h2) = Inr (r', h') \<and>
               segments r' = segments r1 @ segments built \<and>
               length (segments r') = length (segments r1) + length (segments built) \<and>
               sum_ring r' = sum_ring r1 + sum_ring built"
        by simp
    qed
    show "\<exists>built h1. create_and_append lt this2 segment ps h0 = Inr (built, h1) \<and>
         (\<forall>r1 h2. (\<forall>p\<in>set (segments built). start (h2 p) = start (h1 p) \<and> stop (h2 p) = stop (h1 p)) \<longrightarrow>
            (\<exists>r' h'. join_forward lt this built (r1, h2) = Inr (r', h') \<and>
               segments r' = segments r1 @ segments built \<and>
               length (segments r') = length (segments r1) + length (segments built) \<and>
               sum_ring r' = sum_ring r1 + sum_ring built))"
      by (rule exI [of _ built], rule exI [of _ h1], rule conjI, rule b(1), rule joinable)
  qed
  from first second show ?thesis
    by (rule conjI)
qed

theorem join_forward_count_and_sum_witness:
  "create_and_append example_order 8 3 [] example_store = Inr (single_ring, tail_store) \<and>
   create_and_append example_order 7 1 [2] tail_store = Inr (head_ring, head_store) \<and>
   get_node_ref_stop head_ring head_store = get_node_ref_start single_ring head_store \<and>
   join_forward example_order 7 single_ring (head_ring, head_store) =
     Inr (triangle_ring, for_each (set_ring 7) [3] head_store) \<and>
   segments triangle_ring = segments head_ring @ segments single_ring \<and>
   length (segments triangle_ring) = length (segments head_ring) + length (segments single_ring) \<and>
   sum_ring triangle_ring = sum_ring head_ring + sum_ring single_ring \<and>
   sum_ring head_ring = - 6 \<and> sum_ring single_ring = 2 \<and> sum_ring triangle_ring = - 4"
proof -
  have built: "create_and_append example_order 8 3 [] example_store = Inr (single_ring, tail_store)"
    by (simp add: example_defs single_ring_def tail_store_def)
  have grown: "create_and_append example_order 7 1 [2] tail_store = Inr (head_ring, head_store)"
    by (simp add: example_defs head_ring_def head_store_def tail_store_def)
  have ends: "get_node_ref_stop head_ring head_store = get_node_ref_start single_ring head_store"
    by (simp add: get_node_ref_start_def get_node_ref_stop_def example_defs
        single_ring_def head_ring_def head_store_def tail_store_def)
  have joined: "join_forward example_order 7 single_ring (head_ring, head_store) =
     Inr (triangle_ring, for_each (set_ring 7) [3] head_store)"
    by (simp add: join_forward_def example_defs single_ring_def head_ring_def head_store_def
        tail_store_def triangle_ring_def)
  have same: "\<forall>p\<in>set (segments single_ring).
      start (head_store p) = start (tail_store p) \<and> stop (head_store p) = stop (tail_store p)"
    by (simp add: segments_def single_ring_def head_store_def set_ring_def)
  have "3 \<noteq> nullptr \<and> nullptr \<notin> set ([] :: nat list)"
    by simp
  with join_forward_count_and_sum [of head_ring example_order 7 head_ring head_store 3 "[]" 8 example_store]
  obtain b h1 where
    b: "create_and_append example_order 8 3 [] example_store = Inr (b, h1)"
    and j: "\<forall>r1 h2. (\<forall>p\<in>set (segments b). start (h2 p) = start (h1 p) \<and> stop (h2 p) = stop (h1 p)) \<longrightarrow>
            (\<exists>r' h'. join_forward example_order 7 b (r1, h2) = Inr (r', h') \<and>
               segments r' = segments r1 @ segments b \<and>
               length (segments r') = length (segments r1) + length (segments b) \<and>
               sum_ring r' = sum_ring r1 + sum_ring b)"
    by blast
  from b built have eq: "b = single_ring" "h1 = tail_store"
    by simp_all
  from j same obtain r' h' where
    "join_forward example_order 7 single_ring (head_ring, head_store) = Inr (r', h')"
    "segments r' = segments head_ring @ segments single_ring"
    "length (segments r') = length (segments head_ring) + length (segments single_ring)"
    "sum_ring r' = sum_ring head_ring + sum_ring single_ring"
    unfolding eq by blast
  with joined have props: "segments triangle_ring = segments head_ring @ segments single_ring"
    "length (segments triangle_ring) = length (segments head_ring) + length (segments single_ring)"
    "sum_ring triangle_ring = sum_ring head_ring + sum_ring single_ring"
    by simp_all
  have vals: "sum_ring head_ring = - 6" "sum_ring single_ring = 2" "sum_ring triangle_ring = - 4"
    by (simp_all add: sum_ring_def head_ring_def single_ring_def triangle_ring_def)
  from built grown ends joined props vals show ?thesis
    by blast
qed

section \<open>Closure\<close>

text \<open>
  C8. On a ring with at least one segment, \<^verbatim>\<open>closed()\<close> is defined and is true exactly
  when the location of the first segment's start equals the location of the last
  segment's stop. Only the locations are compared: the node references themselves may
  differ.
\<close>

theorem closed_by_location:
  assumes "segments r \<noteq> []"
  shows "closed r h =
     Some (location (start (h (hd (segments r)))) = location (stop (h (last (segments r)))))"
  using assms
  by (cases "m_segments r")
     (simp_all add: closed_def get_node_ref_start_def get_node_ref_stop_def segments_def)

theorem closed_by_location_witness:
  "segments triangle_ring = [1, 2, 3] \<and>
   start (triangle_store 1) = node 1 1 1 \<and> stop (triangle_store 3) = node 4 1 1 \<and>
   start (triangle_store 1) \<noteq> stop (triangle_store 3) \<and>
   closed triangle_ring triangle_store = Some True \<and>
   closed (triangle_ring\<lparr>m_segments := [1]\<rparr>) triangle_store = Some False \<and>
   closed (triangle_ring\<lparr>m_segments := [1, 2]\<rparr>) triangle_store = Some False \<and>
   closed flat_ring flat_store = Some True \<and>
   closed (triangle_ring\<lparr>m_segments := [6]\<rparr>) triangle_store = Some True"
proof -
  have "segments triangle_ring \<noteq> []"
    by (simp add: segments_def triangle_ring_def)
  from closed_by_location [OF this, of triangle_store]
  have "closed triangle_ring triangle_store = Some True"
    by (simp add: example_defs example_ring_defs)
  moreover have "start (triangle_store 1) = node 1 1 1" "stop (triangle_store 3) = node 4 1 1"
    "start (triangle_store 1) \<noteq> stop (triangle_store 3)"
    by (simp_all add: example_defs example_ring_defs)
  moreover have "closed (triangle_ring\<lparr>m_segments := [1]\<rparr>) triangle_store = Some False"
    "closed (triangle_ring\<lparr>m_segments := [1, 2]\<rparr>) triangle_store = Some False"
    "closed flat_ring flat_store = Some True"
    "closed (triangle_ring\<lparr>m_segments := [6]\<rparr>) triangle_store = Some True"
    by (simp_all add: closed_def get_node_ref_start_def get_node_ref_stop_def
        example_defs example_ring_defs)
  moreover have "segments triangle_ring = [1, 2, 3]"
    by (simp add: segments_def triangle_ring_def)
  ultimately show ?thesis by blast
qed

section \<open>Orientation\<close>

text \<open>
  C4. \<^verbatim>\<open>is_cw()\<close> is true exactly when \<^verbatim>\<open>m_sum\<close>, read as a signed 64-bit number, is at
  most 0. When \<^verbatim>\<open>is_cw() == is_outer()\<close>, \<^verbatim>\<open>fix_direction()\<close> is \<^verbatim>\<open>reverse()\<close>: the
  pointers in reverse order, the sum negated, each segment reversed once per occurrence.
  Otherwise it changes neither the ring nor the store.
\<close>

theorem fix_direction_rule:
  "(is_cw r \<longleftrightarrow> sint (sum_ring r) \<le> 0) \<and>
   (is_cw r = is_outer r \<longrightarrow>
      fix_direction (r, h) = reverse (r, h) \<and>
      segments (fst (fix_direction (r, h))) = rev (segments r) \<and>
      sum_ring (fst (fix_direction (r, h))) = - sum_ring r \<and>
      snd (fix_direction (r, h)) = for_each segment_reverse (segments r) h) \<and>
   (is_cw r \<noteq> is_outer r \<longrightarrow> fix_direction (r, h) = (r, h))"
  by (simp add: is_cw_def sum_ring_def segments_def fix_direction_def reverse_def)

theorem fix_direction_rule_witness:
  "is_cw triangle_ring \<and> is_outer triangle_ring \<and>
   fix_direction (triangle_ring, triangle_store) = reverse (triangle_ring, triangle_store) \<and>
   segments (fst (fix_direction (triangle_ring, triangle_store))) = [3, 2, 1] \<and>
   sum_ring (fst (fix_direction (triangle_ring, triangle_store))) = 4 \<and>
   \<not> is_cw (fst (fix_direction (triangle_ring, triangle_store))) \<and>
   start (snd (fix_direction (triangle_ring, triangle_store)) 3) = node 4 1 1 \<and>
   stop (snd (fix_direction (triangle_ring, triangle_store)) 3) = node 3 3 1 \<and>
   is_cw (triangle_ring\<lparr>m_outer_ring := 9\<rparr>) \<and> \<not> is_outer (triangle_ring\<lparr>m_outer_ring := 9\<rparr>) \<and>
   fix_direction (triangle_ring\<lparr>m_outer_ring := 9\<rparr>, triangle_store) =
     (triangle_ring\<lparr>m_outer_ring := 9\<rparr>, triangle_store)"
proof -
  let ?s = "(triangle_ring, triangle_store)"
  let ?inner = "triangle_ring\<lparr>m_outer_ring := 9\<rparr>"
  have cw: "is_cw triangle_ring" "is_outer triangle_ring" "is_cw ?inner" "\<not> is_outer ?inner"
    by (simp_all add: is_cw_def is_outer_def triangle_ring_def)
  have flip: "fix_direction ?s = reverse ?s"
    using fix_direction_rule [of triangle_ring triangle_store] cw by simp
  have keep: "fix_direction (?inner, triangle_store) = (?inner, triangle_store)"
    using fix_direction_rule [of ?inner triangle_store] cw by simp
  have vals: "segments (fst (reverse ?s)) = [3, 2, 1]" "sum_ring (fst (reverse ?s)) = 4"
    "\<not> is_cw (fst (reverse ?s))"
    "start (snd (reverse ?s) 3) = node 4 1 1" "stop (snd (reverse ?s) 3) = node 3 3 1"
    by (simp_all add: reverse_def is_cw_def segment_reverse_def example_defs example_ring_defs)
  show ?thesis
    unfolding flip keep using cw vals by blast
qed

text \<open>
  C5. \<^verbatim>\<open>reverse()\<close> applied twice gives back the ring and the store it started from:
  the order of the pointers, the start and stop of every segment, and \<^verbatim>\<open>m_sum\<close>. The
  segment-level reverse swaps start and stop, so it is an involution and negates
  \<^verbatim>\<open>det()\<close> (\<open>segment_reverse_involution\<close>, \<open>det_segment_reverse\<close>).
\<close>

theorem reverse_involution:
  "reverse (reverse (r, h)) = (r, h) \<and>
   segments (fst (reverse (reverse (r, h)))) = segments r \<and>
   start (snd (reverse (reverse (r, h))) p) = start (h p) \<and>
   stop (snd (reverse (reverse (r, h))) p) = stop (h p) \<and>
   sum_ring (fst (reverse (reverse (r, h)))) = sum_ring r"
  by (simp add: reverse_reverse)

theorem reverse_involution_witness:
  "segments (fst (reverse (triangle_ring, triangle_store))) = [3, 2, 1] \<and>
   sum_ring (fst (reverse (triangle_ring, triangle_store))) = 4 \<and>
   start (snd (reverse (triangle_ring, triangle_store)) 1) = node 2 1 3 \<and>
   stop (snd (reverse (triangle_ring, triangle_store)) 1) = node 1 1 1 \<and>
   reverse (reverse (triangle_ring, triangle_store)) = (triangle_ring, triangle_store) \<and>
   segments (fst (reverse (reverse (triangle_ring, triangle_store)))) = [1, 2, 3] \<and>
   sum_ring (fst (reverse (reverse (triangle_ring, triangle_store)))) = - 4 \<and>
   start (snd (reverse (reverse (triangle_ring, triangle_store))) 1) = node 1 1 1 \<and>
   stop (snd (reverse (reverse (triangle_ring, triangle_store))) 1) = node 2 1 3"
proof -
  have "segments (fst (reverse (triangle_ring, triangle_store))) = [3, 2, 1]"
    and "sum_ring (fst (reverse (triangle_ring, triangle_store))) = 4"
    and "start (snd (reverse (triangle_ring, triangle_store)) 1) = node 2 1 3"
    and "stop (snd (reverse (triangle_ring, triangle_store)) 1) = node 1 1 1"
    by (simp_all add: reverse_def segment_reverse_def example_defs example_ring_defs)
  moreover have "start (triangle_store 1) = node 1 1 1" and "stop (triangle_store 1) = node 2 1 3"
    by (simp_all add: example_defs example_ring_defs)
  moreover have "segments triangle_ring = [1, 2, 3]" and "sum_ring triangle_ring = - 4"
    by (simp_all add: segments_def sum_ring_def triangle_ring_def)
  ultimately show ?thesis
    using reverse_involution [of triangle_ring triangle_store 1] by simp
qed

subsection \<open>The sum under reversal\<close>

text \<open>
  For a ring that holds no pointer twice, \<^verbatim>\<open>reverse()\<close> keeps \<^verbatim>\<open>m_sum\<close> in step with
  its segments: every segment is reversed once, which negates its \<^verbatim>\<open>det()\<close>, and the sum
  is negated.
\<close>

lemma for_each_distinct:
  "distinct ps \<Longrightarrow> for_each f ps h = (\<lambda>p. if p \<in> set ps then f (h p) else h p)"
proof (induction ps arbitrary: h)
  case Nil
  show ?case by simp
next
  case (Cons q ps)
  then have "q \<notin> set ps" and "distinct ps" by simp_all
  then show ?case
    unfolding for_each.simps Cons.IH [OF \<open>distinct ps\<close>]
    by (intro ext) auto
qed

lemma det_sum_reversed:
  "det_sum (\<lambda>p. if p \<in> set ps then segment_reverse (h p) else h p) qs = - det_sum h qs"
  if "set qs \<subseteq> set ps"
  using that by (induction qs) (simp_all add: det_sum_Nil det_sum_Cons det_segment_reverse)

lemma det_sum_rev: "det_sum h (rev ps) = det_sum h ps"
  by (simp add: det_sum_def flip: rev_map)

lemma reverse_keeps_sum:
  assumes "distinct (segments r)" and "sum_ring r = det_sum h (segments r)"
  shows "sum_ring (fst (reverse (r, h))) =
         det_sum (snd (reverse (r, h))) (segments (fst (reverse (r, h))))"
  using assms
  by (simp add: reverse_def segments_def sum_ring_def for_each_distinct det_sum_rev
      det_sum_reversed)

subsection \<open>Fixing the direction twice\<close>

text \<open>
  C3, as stated, fails: the chain there and back, made by the constructor and one
  \<^verbatim>\<open>add_segment_back\<close>, is a closed outer ring with \<^verbatim>\<open>m_sum = 0\<close>. Zero counts as
  clockwise, and negating it leaves it zero, so each \<^verbatim>\<open>fix_direction()\<close> reverses the
  ring again: the second call undoes the first.
\<close>

theorem fix_direction_twice_flat_ring:
  "create_and_append example_order 8 4 [5] example_store = Inr (flat_ring, flat_store) \<and>
   is_outer flat_ring \<and> sum_ring flat_ring = 0 \<and> closed flat_ring flat_store = Some True \<and>
   fix_direction (flat_ring, flat_store) = reverse (flat_ring, flat_store) \<and>
   fix_direction (fix_direction (flat_ring, flat_store)) = (flat_ring, flat_store) \<and>
   fix_direction (fix_direction (flat_ring, flat_store)) \<noteq> fix_direction (flat_ring, flat_store)"
proof -
  let ?s = "(flat_ring, flat_store)"
  have outer: "is_outer flat_ring" and cw: "is_cw flat_ring"
    by (simp_all add: is_outer_def is_cw_def flat_ring_def)
  have first: "fix_direction ?s = reverse ?s"
    using outer cw by (simp add: fix_direction_def)
  have "is_outer (fst (reverse ?s))" and "is_cw (fst (reverse ?s))"
    by (simp_all add: reverse_def is_outer_def is_cw_def flat_ring_def)
  then have "fix_direction (reverse ?s) = reverse (reverse ?s)"
    by (simp add: fix_direction_def)
  then have second: "fix_direction (fix_direction ?s) = ?s"
    by (simp only: first reverse_reverse)
  have "fst (reverse ?s) \<noteq> fst ?s"
    by (simp add: reverse_def flat_ring_def)
  then have "reverse ?s \<noteq> ?s"
    by metis
  then have differ: "fix_direction (fix_direction ?s) \<noteq> fix_direction ?s"
    unfolding second unfolding first by simp
  have "closed flat_ring flat_store = Some True"
    by (simp add: closed_def get_node_ref_start_def get_node_ref_stop_def example_defs example_ring_defs)
  moreover have "sum_ring flat_ring = 0"
    by (simp add: sum_ring_def flat_ring_def)
  ultimately show ?thesis
    using flat_built outer first second differ by blast
qed

text \<open>
  C3, amended. For a ring that is inner, or whose \<^verbatim>\<open>m_sum\<close> is neither 0 nor the least
  64-bit value (whose negation overflows), the second of two \<^verbatim>\<open>fix_direction()\<close> calls
  in a row finds \<^verbatim>\<open>is_cw() != is_outer()\<close> and changes nothing. An outer ring whose
  \<^verbatim>\<open>m_sum\<close> is 0 is reversed by the first call and again by the second, which restores
  it.
\<close>

theorem fix_direction_twice:
  "(\<not> is_outer r \<or> (sum_ring r \<noteq> 0 \<and> sum_ring r \<noteq> - (2 ^ 63)) \<longrightarrow>
      fix_direction (fix_direction (r, h)) = fix_direction (r, h) \<and>
      is_cw (fst (fix_direction (r, h))) \<noteq> is_outer (fst (fix_direction (r, h)))) \<and>
   (is_outer r \<and> sum_ring r = 0 \<longrightarrow>
      fix_direction (r, h) = reverse (r, h) \<and>
      is_cw (fst (fix_direction (r, h))) = is_outer (fst (fix_direction (r, h))) \<and>
      fix_direction (fix_direction (r, h)) = (r, h))"
proof (intro conjI impI)
  assume zero: "is_outer r \<and> sum_ring r = 0"
  then have cw: "is_cw r = is_outer r"
    by (simp add: is_cw_def sum_ring_def)
  then show first: "fix_direction (r, h) = reverse (r, h)"
    by (simp add: fix_direction_def)
  show again: "is_cw (fst (fix_direction (r, h))) = is_outer (fst (fix_direction (r, h)))"
    using zero unfolding first by (simp add: reverse_def is_cw_def is_outer_def sum_ring_def)
  then have "fix_direction (reverse (r, h)) = reverse (reverse (r, h))"
    unfolding first by (simp add: fix_direction_def)
  then show "fix_direction (fix_direction (r, h)) = (r, h)"
    by (simp only: first reverse_reverse)
next
  assume pre: "\<not> is_outer r \<or> (sum_ring r \<noteq> 0 \<and> sum_ring r \<noteq> - (2 ^ 63))"
  have "fix_direction (fix_direction (r, h)) = fix_direction (r, h) \<and>
        is_cw (fst (fix_direction (r, h))) \<noteq> is_outer (fst (fix_direction (r, h)))"
  proof (cases "is_cw r = is_outer r")
    case False
    then show ?thesis by (simp add: fix_direction_def)
  next
    case True
    have least: "m_sum r \<noteq> - (2 ^ 63)"
    proof (cases "is_outer r")
      case True
      with pre show ?thesis by (simp add: sum_ring_def)
    next
      case False
      with \<open>is_cw r = is_outer r\<close> have "0 < sint (m_sum r)" by (simp add: is_cw_def)
      then show ?thesis by auto
    qed
    have nz: "sint (m_sum r) \<noteq> 0"
    proof (cases "is_outer r")
      case True
      with pre have "m_sum r \<noteq> 0" by (simp add: sum_ring_def)
      then show ?thesis by (simp add: signed_eq_0_iff)
    next
      case False
      with \<open>is_cw r = is_outer r\<close> show ?thesis by (simp add: is_cw_def)
    qed
    have flip: "is_cw (fst (reverse (r, h))) = (\<not> is_cw r)"
      using nz by (auto simp add: reverse_def is_cw_def sint_neg64 [OF least])
    have same: "is_outer (fst (reverse (r, h))) = is_outer r"
      by (simp add: reverse_def is_outer_def)
    have first: "fix_direction (r, h) = reverse (r, h)"
      using True by (simp add: fix_direction_def)
    have "is_cw (fst (reverse (r, h))) \<noteq> is_outer (fst (reverse (r, h)))"
      using True flip same by simp
    then show ?thesis
      by (simp add: first) (simp add: fix_direction_def)
  qed
  then show "fix_direction (fix_direction (r, h)) = fix_direction (r, h)"
    and "is_cw (fst (fix_direction (r, h))) \<noteq> is_outer (fst (fix_direction (r, h)))"
    by simp_all
qed

theorem fix_direction_twice_witness:
  "is_outer triangle_ring \<and> sum_ring triangle_ring = - 4 \<and>
   fix_direction (fix_direction (triangle_ring, triangle_store)) =
     fix_direction (triangle_ring, triangle_store) \<and>
   segments (fst (fix_direction (triangle_ring, triangle_store))) = [3, 2, 1] \<and>
   \<not> is_cw (fst (fix_direction (triangle_ring, triangle_store))) \<and>
   is_outer flat_ring \<and> sum_ring flat_ring = 0 \<and>
   fix_direction (fix_direction (flat_ring, flat_store)) = (flat_ring, flat_store)"
proof -
  have tri: "is_outer triangle_ring" "sum_ring triangle_ring = - 4"
    and flat: "is_outer flat_ring" "sum_ring flat_ring = 0"
    by (simp_all add: is_outer_def sum_ring_def triangle_ring_def flat_ring_def)
  have "sum_ring triangle_ring \<noteq> 0 \<and> sum_ring triangle_ring \<noteq> - (2 ^ 63)"
    by (simp add: tri)
  with fix_direction_twice [of triangle_ring triangle_store]
  have stable: "fix_direction (fix_direction (triangle_ring, triangle_store)) =
      fix_direction (triangle_ring, triangle_store)"
    by blast
  have restored: "fix_direction (fix_direction (flat_ring, flat_store)) = (flat_ring, flat_store)"
    using fix_direction_twice [of flat_ring flat_store] flat by blast
  have "segments (fst (fix_direction (triangle_ring, triangle_store))) = [3, 2, 1]"
    and "\<not> is_cw (fst (fix_direction (triangle_ring, triangle_store)))"
    by (simp_all add: segments_def is_cw_def is_outer_def fix_direction_def reverse_def
        triangle_ring_def)
  then show ?thesis
    using tri flat stable restored by blast
qed

subsection \<open>The cached minimum under reversal\<close>

text \<open>
  \<^verbatim>\<open>reverse()\<close> does not assign \<^verbatim>\<open>m_min_segment\<close>. Whether the pointer still names a
  minimum afterwards is decided by the order on segments, which is a parameter here: it
  does for every order that reversing a segment does not affect, and it does not for
  the example order on the triangle, since that order reads the start location.
\<close>

lemma reverse_min_segment: "min_segment (fst (reverse (r, h))) = min_segment r"
  by (simp add: reverse_def min_segment_def)

lemma for_each_reverse_cases:
  "for_each segment_reverse ps h p = h p \<or>
   for_each segment_reverse ps h p = segment_reverse (h p)"
proof (induction ps arbitrary: h)
  case Nil
  show ?case by simp
next
  case (Cons q ps)
  let ?h1 = "h(q := segment_reverse (h q))"
  have step: "for_each segment_reverse (q # ps) h p = for_each segment_reverse ps ?h1 p"
    by simp
  have "?h1 p = h p \<or> ?h1 p = segment_reverse (h p)"
    by simp
  with Cons.IH [of ?h1] show ?case
    unfolding step by (metis segment_reverse_involution)
qed

lemma reverse_keeps_min_segment:
  assumes inv: "\<And>a b. lt (segment_reverse a) b = lt a b \<and> lt a (segment_reverse b) = lt a b"
    and m: "is_min_segment lt h (segments r) (min_segment r)"
  shows "is_min_segment lt (snd (reverse (r, h))) (segments (fst (reverse (r, h))))
           (min_segment (fst (reverse (r, h))))"
proof -
  have same: "lt (for_each segment_reverse ps h a) (for_each segment_reverse ps h b) = lt (h a) (h b)"
    for ps a b
    using for_each_reverse_cases [of ps h a] for_each_reverse_cases [of ps h b]
    by (auto simp: inv)
  show ?thesis
    using m by (simp add: is_min_segment_def reverse_def segments_def min_segment_def same)
qed

lemma reverse_loses_min_segment_example:
  "is_min_segment example_order triangle_store (segments triangle_ring) (min_segment triangle_ring) \<and>
   \<not> is_min_segment example_order (snd (reverse (triangle_ring, triangle_store)))
        (segments (fst (reverse (triangle_ring, triangle_store))))
        (min_segment (fst (reverse (triangle_ring, triangle_store))))"
  by (simp add: is_min_segment_def reverse_def segment_reverse_def example_defs example_ring_defs)

section \<open>Nesting\<close>

text \<open>
  C6. On a ring whose \<^verbatim>\<open>m_outer_ring\<close> is set, \<^verbatim>\<open>add_inner_ring\<close> stops at a failed
  assertion: \<^verbatim>\<open>assert(!m_outer_ring)\<close>, unless the argument is null and
  \<^verbatim>\<open>assert(ring)\<close> fails first. On a ring with inner rings, \<^verbatim>\<open>set_outer_ring\<close> stops at
  \<^verbatim>\<open>assert(m_inner.empty())\<close>, unless \<^verbatim>\<open>assert(outer_ring)\<close> fails first. On a ring
  whose \<^verbatim>\<open>m_outer_ring\<close> is null, \<^verbatim>\<open>assert(!m_outer_ring)\<close> does not fail, and
  \<^verbatim>\<open>add_inner_ring\<close> with a non-null argument appends it; on a ring with no inner
  rings, \<^verbatim>\<open>assert(m_inner.empty())\<close> does not fail, and \<^verbatim>\<open>set_outer_ring\<close> with a
  non-null argument stores it.
\<close>

theorem nesting_assertions:
  "(outer_ring r \<noteq> nullptr \<longrightarrow>
      add_inner_ring inner r =
        Inl (Assertion_failed (if inner = nullptr then ''ring'' else ''!m_outer_ring''))) \<and>
   (inner_rings r \<noteq> [] \<longrightarrow>
      set_outer_ring outer r =
        Inl (Assertion_failed (if outer = nullptr then ''outer_ring'' else ''m_inner.empty()''))) \<and>
   (outer_ring r = nullptr \<longrightarrow>
      add_inner_ring inner r \<noteq> Inl (Assertion_failed ''!m_outer_ring'') \<and>
      (inner \<noteq> nullptr \<longrightarrow> add_inner_ring inner r = Inr (r\<lparr>m_inner := m_inner r @ [inner]\<rparr>))) \<and>
   (inner_rings r = [] \<longrightarrow>
      set_outer_ring outer r \<noteq> Inl (Assertion_failed ''m_inner.empty()'') \<and>
      (outer \<noteq> nullptr \<longrightarrow> set_outer_ring outer r = Inr (r\<lparr>m_outer_ring := outer\<rparr>)))"
  by (simp add: outer_ring_def inner_rings_def add_inner_ring_def set_outer_ring_def)

theorem nesting_assertions_witness:
  "outer_ring (triangle_ring\<lparr>m_outer_ring := 9\<rparr>) = 9 \<and>
   add_inner_ring 10 (triangle_ring\<lparr>m_outer_ring := 9\<rparr>) = Inl (Assertion_failed ''!m_outer_ring'') \<and>
   inner_rings (triangle_ring\<lparr>m_inner := [10]\<rparr>) = [10] \<and>
   set_outer_ring 9 (triangle_ring\<lparr>m_inner := [10]\<rparr>) = Inl (Assertion_failed ''m_inner.empty()'') \<and>
   outer_ring triangle_ring = nullptr \<and> inner_rings triangle_ring = [] \<and>
   add_inner_ring 10 triangle_ring = Inr (triangle_ring\<lparr>m_inner := [10]\<rparr>) \<and>
   set_outer_ring 9 triangle_ring = Inr (triangle_ring\<lparr>m_outer_ring := 9\<rparr>)"
proof -
  have pre: "outer_ring (triangle_ring\<lparr>m_outer_ring := 9\<rparr>) = 9"
    "inner_rings (triangle_ring\<lparr>m_inner := [10]\<rparr>) = [10]"
    "outer_ring triangle_ring = nullptr" "inner_rings triangle_ring = []"
    "m_inner triangle_ring = []"
    by (simp_all add: outer_ring_def inner_rings_def triangle_ring_def)
  show ?thesis
    using pre nesting_assertions [of "triangle_ring\<lparr>m_outer_ring := 9\<rparr>" 10 9]
      nesting_assertions [of "triangle_ring\<lparr>m_inner := [10]\<rparr>" 10 9]
      nesting_assertions [of triangle_ring 10 9]
    by simp
qed

text \<open>
  C9. \<^verbatim>\<open>reset()\<close> empties \<^verbatim>\<open>m_inner\<close>, nulls \<^verbatim>\<open>m_outer_ring\<close> (so the ring is outer),
  and clears the direction-finalized flag of every segment of the ring. The pointers
  and their order, \<^verbatim>\<open>m_sum\<close> and \<^verbatim>\<open>m_min_segment\<close> stay as they were, and so does
  everything else in the store.
\<close>

theorem reset_effect:
  "inner_rings (fst (reset (r, h))) = [] \<and>
   outer_ring (fst (reset (r, h))) = nullptr \<and>
   is_outer (fst (reset (r, h))) \<and>
   (\<forall>p\<in>set (segments r). \<not> direction_done (snd (reset (r, h)) p)) \<and>
   segments (fst (reset (r, h))) = segments r \<and>
   sum_ring (fst (reset (r, h))) = sum_ring r \<and>
   min_segment (fst (reset (r, h))) = min_segment r \<and>
   (\<forall>p. snd (reset (r, h)) p =
      (if p \<in> set (segments r) then (h p)\<lparr>direction_done := False\<rparr> else h p))"
proof -
  have store: "snd (reset (r, h)) p =
      (if p \<in> set (segments r) then (h p)\<lparr>direction_done := False\<rparr> else h p)" for p
    by (simp add: reset_def segments_def segment_mark_direction_not_done_def
        for_each_idem [where f = segment_mark_direction_not_done,
          OF segment_mark_direction_not_done_idem])
  have ring: "fst (reset (r, h)) = r\<lparr>m_inner := [], m_outer_ring := nullptr\<rparr>"
    by (simp add: reset_def)
  have "\<forall>p\<in>set (segments r). \<not> direction_done (snd (reset (r, h)) p)"
    by (simp add: store)
  moreover have "\<forall>p. snd (reset (r, h)) p =
      (if p \<in> set (segments r) then (h p)\<lparr>direction_done := False\<rparr> else h p)"
    using store by blast
  ultimately show ?thesis
    unfolding ring
    by (simp add: inner_rings_def outer_ring_def is_outer_def segments_def
        sum_ring_def min_segment_def)
qed

theorem reset_effect_witness:
  "\<not> is_outer (triangle_ring\<lparr>m_outer_ring := 9\<rparr>) \<and>
   direction_done (snd (mark_direction_done (triangle_ring\<lparr>m_outer_ring := 9\<rparr>, triangle_store)) 2) \<and>
   is_outer (fst (reset (mark_direction_done (triangle_ring\<lparr>m_outer_ring := 9\<rparr>, triangle_store)))) \<and>
   inner_rings (fst (reset (triangle_ring\<lparr>m_inner := [10, 11]\<rparr>, triangle_store))) = [] \<and>
   \<not> direction_done (snd (reset (mark_direction_done (triangle_ring\<lparr>m_outer_ring := 9\<rparr>, triangle_store))) 2) \<and>
   segments (fst (reset (mark_direction_done (triangle_ring\<lparr>m_outer_ring := 9\<rparr>, triangle_store)))) = [1, 2, 3] \<and>
   sum_ring (fst (reset (mark_direction_done (triangle_ring\<lparr>m_outer_ring := 9\<rparr>, triangle_store)))) = - 4"
proof -
  let ?r = "triangle_ring\<lparr>m_outer_ring := 9\<rparr>"
  let ?h = "for_each segment_mark_direction_done [1, 2, 3] triangle_store"
  have md: "mark_direction_done (?r, triangle_store) = (?r, ?h)"
    by (simp add: mark_direction_done_def triangle_ring_def)
  have segs: "segments ?r = [1, 2, 3]" and sum: "sum_ring ?r = - 4" and inner: "\<not> is_outer ?r"
    by (simp_all add: segments_def sum_ring_def is_outer_def triangle_ring_def)
  have marked: "direction_done (?h 2)"
    by (simp add: segment_mark_direction_done_def)
  have "2 \<in> set (segments ?r)"
    by (simp add: segs)
  with reset_effect [of ?r ?h] have "\<not> direction_done (snd (reset (?r, ?h)) 2)"
    by blast
  moreover have "inner_rings (fst (reset (triangle_ring\<lparr>m_inner := [10, 11]\<rparr>, triangle_store))) = []"
    by (simp add: reset_def inner_rings_def)
  ultimately show ?thesis
    using reset_effect [of ?r ?h] segs sum inner marked unfolding md by simp
qed

end
